theory Spec2Isabelle
  imports Main
begin

section \<open>The labelled-stream synchroniser \<open>partitionSync\<close>\<close>

text \<open>
  A shallow embedding of the transducer \<open>partitionSync\<close>: the two reducers it builds
  around a downstream reducer \<open>[init, complete, reduce]\<close>, and its helpers
  \<open>requiredInputs\<close> and \<open>collect\<close>.

  The closure variables \<open>curr\<close>, \<open>first\<close>, \<open>currKeys\<close> and \<open>cache\<close> are the fields of
  a state record that every call takes and returns. The label set \<open>ks\<close> is owned by the
  caller and read afresh by every call, so it is an argument of each call: the list of
  the members of the \<open>Set\<close> (an array of labels has been made a \<open>Set\<close> by then). A thrown
  exception is a value of type \<open>error\<close>, returned with the state as it is at the throw.
  Labels are values of one type on which the membership test of a JavaScript \<open>Set\<close>
  and the naming of an object property agree (strings, say).
\<close>

subsection \<open>JavaScript sets, in insertion order\<close>

text \<open>
  A \<open>Set\<close> is the list of its members in insertion order, without repetition.
  \<open>set_add\<close> is \<open>Set.prototype.add\<close>, \<open>set_delete\<close> is \<open>Set.prototype.delete\<close>,
  \<open>set_has\<close> is \<open>Set.prototype.has\<close>; \<open>size\<close> is \<open>length\<close> and \<open>clear()\<close> leaves \<open>[]\<close>.
\<close>

definition set_has :: "'k list \<Rightarrow> 'k \<Rightarrow> bool" where
  "set_has s k = (k \<in> set s)"

definition set_add :: "'k \<Rightarrow> 'k list \<Rightarrow> 'k list" where
  "set_add k s = (if set_has s k then s else s @ [k])"

definition set_delete :: "'k \<Rightarrow> 'k list \<Rightarrow> 'k list" where
  "set_delete k s = removeAll k s"

subsection \<open>Options, state, errors and the downstream reducer\<close>

record ('k, 'v) opts =
  key :: "'v \<Rightarrow> 'k"
  mergeOnly :: bool
  reset :: bool
  all :: bool
  backPressure :: int

text \<open>
  The defaults that \<open>partitionSync\<close> merges the caller's options over
  (\<open>mergeOnly: false, reset: true, all: true, backPressure: 0\<close>); the key function
  is given, since the default \<open>identity\<close> needs labels and values of one type.
  \<open>backPressure\<close> is the number of values a label may cache, an integer.
\<close>

definition default_opts :: "('v \<Rightarrow> 'k) \<Rightarrow> ('k, 'v) opts" where
  "default_opts keyfn =
     \<lparr>key = keyfn, mergeOnly = False, reset = True, all = True, backPressure = 0\<rparr>"

record ('k, 'v) state =
  curr :: "'k \<rightharpoonup> 'v"
  first :: bool
  currKeys :: "'k list"
  cache :: "'k \<rightharpoonup> 'v list"

definition init_state :: "('k, 'v) state" where
  "init_state = \<lparr>curr = Map.empty, first = True, currKeys = [], cache = Map.empty\<rparr>"

text \<open>
  \<open>IllegalState n k\<close> is the error of \<open>illegalState\<close>, whose message
  \<open>max back pressure (n) exceeded for input: k\<close> carries the limit and the label.
  \<open>TypeError\<close> is what JavaScript throws on \<open>undefined.shift()\<close>.
\<close>

datatype 'k error = IllegalState int 'k | TypeError

record ('acc, 'k, 'v) reducer =
  init :: 'acc
  complete :: "'acc \<Rightarrow> 'acc"
  reduce :: "'acc \<Rightarrow> ('k \<rightharpoonup> 'v) \<Rightarrow> 'acc"

subsection \<open>\<open>requiredInputs\<close> and \<open>collect\<close>\<close>

definition requiredInputs :: "'k list \<Rightarrow> 'k list \<Rightarrow> bool" where
  "requiredInputs required cur =
     (if length cur < length required then False
      else list_all (\<lambda>k. set_has cur k) required)"

text \<open>
  The loop of \<open>collect\<close> over the members of \<open>currKeys\<close>. It deletes from the set it
  iterates over, but only the member it is at, so it visits the members the set had
  at the start: the list \<open>ids\<close>. \<open>cache.get(id)\<close> on a label with no slot is
  \<open>undefined\<close> and \<open>shift\<close> on it throws; \<open>shift\<close> on an empty slot returns the
  JavaScript value \<open>undefined\<close>, the argument \<open>undef\<close>, and leaves the slot empty.
\<close>

fun collect_loop ::
  "'v \<Rightarrow> 'k list \<Rightarrow> ('k \<rightharpoonup> 'v list) \<Rightarrow> 'k list \<Rightarrow> ('k \<rightharpoonup> 'v)
    \<Rightarrow> ('k \<rightharpoonup> 'v list) \<times> 'k list \<times> ('k error + ('k \<rightharpoonup> 'v))" where
  "collect_loop undef [] ca cks cur = (ca, cks, Inr cur)"
| "collect_loop undef (k # ids) ca cks cur =
     (case ca k of
        None \<Rightarrow> (ca, cks, Inl TypeError)
      | Some slot \<Rightarrow>
          (case slot of
             [] \<Rightarrow> collect_loop undef ids ca (set_delete k cks) (cur(k \<mapsto> undef))
           | v # rest \<Rightarrow>
               collect_loop undef ids (ca(k \<mapsto> rest))
                 (if rest = [] then set_delete k cks else cks) (cur(k \<mapsto> v))))"

definition collect ::
  "'v \<Rightarrow> ('k \<rightharpoonup> 'v list) \<Rightarrow> 'k list
    \<Rightarrow> ('k \<rightharpoonup> 'v list) \<times> 'k list \<times> ('k error + ('k \<rightharpoonup> 'v))" where
  "collect undef ca cks = collect_loop undef cks ca cks Map.empty"

subsection \<open>The reducer without back pressure\<close>

text \<open>
  The completion and reducing functions of the branch taken when
  \<open>mergeOnly || backPressure < 1\<close>. The tuple handed to \<open>reduce\<close> is never written
  to afterwards: \<open>curr\<close> is rebound to a new object right after each call.
\<close>

definition latest_complete ::
  "('acc, 'k, 'v) reducer \<Rightarrow> ('k, 'v) opts \<Rightarrow> ('k, 'v) state \<Rightarrow> 'acc
    \<Rightarrow> ('k, 'v) state \<times> 'acc" where
  "latest_complete R opt s acc =
     (if (reset opt \<and> all opt \<and> length (currKeys s) > 0) \<or> (\<not> reset opt \<and> first s)
      then (s\<lparr>curr := Map.empty, currKeys := [], first := False\<rparr>,
            complete R (reduce R acc (curr s)))
      else (s, complete R acc))"

definition latest_reduce ::
  "('acc, 'k, 'v) reducer \<Rightarrow> ('k, 'v) opts \<Rightarrow> 'k list \<Rightarrow> ('k, 'v) state \<Rightarrow> 'acc \<Rightarrow> 'v
    \<Rightarrow> ('k, 'v) state \<times> 'acc" where
  "latest_reduce R opt ks s acc x =
     (let k = key opt x in
      if set_has ks k then
        (let curr1 = (curr s)(k \<mapsto> x);
             keys1 = set_add k (currKeys s) in
         if mergeOnly opt \<or> requiredInputs ks keys1 then
           (if reset opt
            then (s\<lparr>curr := Map.empty, currKeys := [], first := False\<rparr>,
                  reduce R acc curr1)
            else (s\<lparr>curr := curr1, currKeys := keys1, first := False\<rparr>,
                  reduce R acc curr1))
         else (s\<lparr>curr := curr1, currKeys := keys1\<rparr>, acc))
      else (s, acc))"

subsection \<open>The reducer with back pressure\<close>

text \<open>
  The \<open>while\<close> loop of the reducing function. Nothing in the loop itself bounds it
  (with an empty label set and no label present it would hand out empty tuples for
  ever), so it is a partial function: \<open>None\<close> is a loop that does not end.
\<close>

partial_function (option) drain ::
  "'v \<Rightarrow> ('acc \<Rightarrow> bool) \<Rightarrow> ('acc, 'k, 'v) reducer \<Rightarrow> 'k list \<Rightarrow> ('k, 'v) state \<Rightarrow> 'acc
    \<Rightarrow> (('k, 'v) state \<times> ('k error + 'acc)) option" where
  "drain undef isReduced R ks s acc =
     (if requiredInputs ks (currKeys s) then
        (case collect undef (cache s) (currKeys s) of
           (ca, cks, Inl e) \<Rightarrow> Some (s\<lparr>cache := ca, currKeys := cks\<rparr>, Inl e)
         | (ca, cks, Inr t) \<Rightarrow>
             (if isReduced (reduce R acc t)
              then Some (s\<lparr>cache := ca, currKeys := cks, first := False\<rparr>,
                         Inr (reduce R acc t))
              else drain undef isReduced R ks
                     (s\<lparr>cache := ca, currKeys := cks, first := False\<rparr>) (reduce R acc t)))
      else Some (s, Inr acc))"

definition fifo_complete ::
  "'v \<Rightarrow> ('acc, 'k, 'v) reducer \<Rightarrow> ('k, 'v) opts \<Rightarrow> ('k, 'v) state \<Rightarrow> 'acc
    \<Rightarrow> ('k, 'v) state \<times> ('k error + 'acc)" where
  "fifo_complete undef R opt s acc =
     (if all opt \<and> length (currKeys s) > 0 then
        (case collect undef (cache s) (currKeys s) of
           (ca, cks, Inl e) \<Rightarrow> (s\<lparr>cache := ca, currKeys := cks\<rparr>, Inl e)
         | (ca, cks, Inr t) \<Rightarrow>
             (s\<lparr>cache := ca, currKeys := []\<rparr>, Inr (complete R (reduce R acc t))))
      else (s, Inr (complete R acc)))"

definition fifo_reduce ::
  "'v \<Rightarrow> ('acc \<Rightarrow> bool) \<Rightarrow> ('acc, 'k, 'v) reducer \<Rightarrow> ('k, 'v) opts \<Rightarrow> 'k list
    \<Rightarrow> ('k, 'v) state \<Rightarrow> 'acc \<Rightarrow> 'v \<Rightarrow> (('k, 'v) state \<times> ('k error + 'acc)) option" where
  "fifo_reduce undef isReduced R opt ks s acc x =
     (let k = key opt x in
      if set_has ks k then
        (let ca1 = (case cache s k of None \<Rightarrow> (cache s)(k \<mapsto> []) | Some sl \<Rightarrow> cache s);
             slot = (case cache s k of None \<Rightarrow> [] | Some sl \<Rightarrow> sl) in
         if int (length slot) \<ge> backPressure opt
         then Some (s\<lparr>cache := ca1\<rparr>, Inl (IllegalState (backPressure opt) k))
         else drain undef isReduced R ks
                (s\<lparr>cache := ca1(k \<mapsto> slot @ [x]), currKeys := set_add k (currKeys s)\<rparr>) acc)
      else Some (s, Inr acc))"

subsection \<open>\<open>partitionSync\<close>: the choice of the reducer\<close>

definition unbounded :: "('k, 'v) opts \<Rightarrow> bool" where
  "unbounded opt = (mergeOnly opt \<or> backPressure opt < 1)"

definition partitionSync_complete ::
  "'v \<Rightarrow> ('acc, 'k, 'v) reducer \<Rightarrow> ('k, 'v) opts \<Rightarrow> ('k, 'v) state \<Rightarrow> 'acc
    \<Rightarrow> ('k, 'v) state \<times> ('k error + 'acc)" where
  "partitionSync_complete undef R opt s acc =
     (if unbounded opt
      then (case latest_complete R opt s acc of (s', acc') \<Rightarrow> (s', Inr acc'))
      else fifo_complete undef R opt s acc)"

definition partitionSync_reduce ::
  "'v \<Rightarrow> ('acc \<Rightarrow> bool) \<Rightarrow> ('acc, 'k, 'v) reducer \<Rightarrow> ('k, 'v) opts \<Rightarrow> 'k list
    \<Rightarrow> ('k, 'v) state \<Rightarrow> 'acc \<Rightarrow> 'v \<Rightarrow> (('k, 'v) state \<times> ('k error + 'acc)) option" where
  "partitionSync_reduce undef isReduced R opt ks s acc x =
     (if unbounded opt
      then (case latest_reduce R opt ks s acc x of (s', acc') \<Rightarrow> Some (s', Inr acc'))
      else fifo_reduce undef isReduced R opt ks s acc x)"

subsection \<open>Running the reducer\<close>

text \<open>
  The calls a driver makes for the inputs \<open>xs\<close>, one after the other, each on the state
  and the accumulator the call before left. An exception ends the run, and so does a loop
  that does not end. A driver that stops on a reduced accumulator makes a prefix of these
  calls.
\<close>

fun feed ::
  "'v \<Rightarrow> ('acc \<Rightarrow> bool) \<Rightarrow> ('acc, 'k, 'v) reducer \<Rightarrow> ('k, 'v) opts \<Rightarrow> 'k list \<Rightarrow> 'v list
    \<Rightarrow> ('k, 'v) state \<Rightarrow> 'acc \<Rightarrow> (('k, 'v) state \<times> ('k error + 'acc)) option" where
  "feed undef isReduced R opt ks [] s acc = Some (s, Inr acc)"
| "feed undef isReduced R opt ks (x # xs) s acc =
     (case partitionSync_reduce undef isReduced R opt ks s acc x of
        None \<Rightarrow> None
      | Some (s', Inl e) \<Rightarrow> Some (s', Inl e)
      | Some (s', Inr acc') \<Rightarrow> feed undef isReduced R opt ks xs s' acc')"

text \<open>
  The downstream reducer that records the tuples it is handed, in order, and never
  returns a reduced accumulator: what is emitted is what it has recorded.
\<close>

definition push :: "(('k \<rightharpoonup> 'v) list, 'k, 'v) reducer" where
  "push = \<lparr>init = [], complete = (\<lambda>acc. acc), reduce = (\<lambda>acc t. acc @ [t])\<rparr>"

definition not_reduced :: "'acc \<Rightarrow> bool" where
  "not_reduced acc = False"

text \<open>
  The inputs of the examples in the documentation of \<open>partitionSync\<close>: pairs of a label
  and a number, the label being the first component (\<open>key: (x) => x[0]\<close>), and the
  options of the first example, which sets the key function only.
\<close>

definition doc_opts :: "(string, string \<times> int) opts" where
  "doc_opts = default_opts fst"

definition src :: "(string \<times> int) list" where
  "src = [(''a'', 1), (''a'', 2), (''d'', 100), (''b'', 10), (''b'', 11), (''c'', 0), (''a'', 3)]"

subsection \<open>States of the reducer with back pressure\<close>

text \<open>
  What every state that the reducer with back pressure reaches from \<open>init_state\<close>
  satisfies: the present labels are pairwise distinct and each has a slot that is not
  empty. \<open>queue\<close> reads the values cached for a label, none when the label has no
  slot; \<open>backlog\<close> counts the present labels and the values cached for them, and
  bounds the number of rounds the draining loop still has to make.
\<close>

definition queue :: "('k \<rightharpoonup> 'v list) \<Rightarrow> 'k \<Rightarrow> 'v list" where
  "queue ca k = (case ca k of None \<Rightarrow> [] | Some sl \<Rightarrow> sl)"

definition present_ok :: "('k \<rightharpoonup> 'v list) \<Rightarrow> 'k list \<Rightarrow> bool" where
  "present_ok ca cks =
     (distinct cks \<and> list_all (\<lambda>k. case ca k of None \<Rightarrow> False | Some sl \<Rightarrow> sl \<noteq> []) cks)"

definition backlog :: "('k \<rightharpoonup> 'v list) \<Rightarrow> 'k list \<Rightarrow> nat" where
  "backlog ca cks = sum_list (map (\<lambda>k. Suc (length (queue ca k))) cks)"







subsection \<open>Calls under a label set that changes\<close>

text \<open>
  The label set belongs to the caller, who may change it between two calls. A run of the
  reducer without back pressure is a list of events: a call of the reducing function, a
  call of the completion function, or the caller replacing the contents of the label set.
  The run returns the label set, the state and the accumulator at its end.
\<close>

datatype ('k, 'v) event = Ingest 'v | Complete | Relabel "'k list"

fun latest_events ::
  "('acc, 'k, 'v) reducer \<Rightarrow> ('k, 'v) opts \<Rightarrow> ('k, 'v) event list \<Rightarrow> 'k list
    \<Rightarrow> ('k, 'v) state \<Rightarrow> 'acc \<Rightarrow> 'k list \<times> ('k, 'v) state \<times> 'acc" where
  "latest_events R opt [] ks s acc = (ks, s, acc)"
| "latest_events R opt (Ingest x # es) ks s acc =
     (case latest_reduce R opt ks s acc x of
        (s', acc') \<Rightarrow> latest_events R opt es ks s' acc')"
| "latest_events R opt (Complete # es) ks s acc =
     (case latest_complete R opt s acc of
        (s', acc') \<Rightarrow> latest_events R opt es ks s' acc')"
| "latest_events R opt (Relabel ks' # es) ks s acc = latest_events R opt es ks' s acc"

text \<open>
  No change of the label set takes out a label that the current tuple holds at that
  moment: whenever the owner replaces the label set during the run, the new set has all
  labels of \<open>curr\<close>. Labels that \<open>curr\<close> does not hold may be removed.
\<close>

fun keeps_held ::
  "('acc, 'k, 'v) reducer \<Rightarrow> ('k, 'v) opts \<Rightarrow> ('k, 'v) event list \<Rightarrow> 'k list
    \<Rightarrow> ('k, 'v) state \<Rightarrow> 'acc \<Rightarrow> bool" where
  "keeps_held R opt [] ks s acc = True"
| "keeps_held R opt (Ingest x # es) ks s acc =
     (case latest_reduce R opt ks s acc x of
        (s', acc') \<Rightarrow> keeps_held R opt es ks s' acc')"
| "keeps_held R opt (Complete # es) ks s acc =
     (case latest_complete R opt s acc of
        (s', acc') \<Rightarrow> keeps_held R opt es ks s' acc')"
| "keeps_held R opt (Relabel ks' # es) ks s acc =
     (dom (curr s) \<subseteq> set ks' \<and> keeps_held R opt es ks' s acc)"

section \<open>Properties\<close>

subsection \<open>Evaluation\<close>

lemmas sync_defs =
  partitionSync_reduce_def partitionSync_complete_def unbounded_def
  latest_reduce_def latest_complete_def fifo_reduce_def fifo_complete_def collect_def
  requiredInputs_def set_has_def set_add_def set_delete_def
  doc_opts_def default_opts_def init_state_def push_def not_reduced_def Let_def

lemma tuple_order: "a \<noteq> b \<Longrightarrow> [b \<mapsto> y, a \<mapsto> x] = [a \<mapsto> x, b \<mapsto> y]"
  by (simp add: fun_upd_twist)

subsection \<open>The documented examples\<close>

text \<open>
  C1. Without back pressure and with the default options (\<open>mergeOnly = false\<close>,
  \<open>reset = true\<close>, \<open>all = true\<close>), the labels \<open>a\<close> and \<open>b\<close> and the inputs
  \<open>a1, a2, d, b1, b2, c, a3\<close> (here \<open>(a, 1), (a, 2), (d, 100), (b, 10), (b, 11), (c, 0),
  (a, 3)\<close>), the recording reducer is handed exactly the tuples \<open>{a: a2, b: b1}\<close> and
  \<open>{a: a3, b: b2}\<close>, in this order; no label is present afterwards, and the completion
  call hands it nothing more.
\<close>

theorem C1_default_options_example:
  "feed undef not_reduced push doc_opts [''a'', ''b''] src init_state [] =
     Some (\<lparr>curr = Map.empty, first = False, currKeys = [], cache = Map.empty\<rparr>,
           Inr [[''a'' \<mapsto> (''a'', 2), ''b'' \<mapsto> (''b'', 10)],
                [''a'' \<mapsto> (''a'', 3), ''b'' \<mapsto> (''b'', 11)]])
   \<and> partitionSync_complete undef push doc_opts
       \<lparr>curr = Map.empty, first = False, currKeys = [], cache = Map.empty\<rparr>
       [[''a'' \<mapsto> (''a'', 2), ''b'' \<mapsto> (''b'', 10)],
        [''a'' \<mapsto> (''a'', 3), ''b'' \<mapsto> (''b'', 11)]] =
     (\<lparr>curr = Map.empty, first = False, currKeys = [], cache = Map.empty\<rparr>,
      Inr [[''a'' \<mapsto> (''a'', 2), ''b'' \<mapsto> (''b'', 10)],
           [''a'' \<mapsto> (''a'', 3), ''b'' \<mapsto> (''b'', 11)]])"
proof -
  have order: "[''b'' \<mapsto> (''b'', 11::int), ''a'' \<mapsto> (''a'', 3)] =
               [''a'' \<mapsto> (''a'', 3), ''b'' \<mapsto> (''b'', 11)]"
    by (rule tuple_order) simp
  have run: "feed undef not_reduced push doc_opts [''a'', ''b''] src init_state [] =
     Some (\<lparr>curr = Map.empty, first = False, currKeys = [], cache = Map.empty\<rparr>,
           Inr [[''a'' \<mapsto> (''a'', 2), ''b'' \<mapsto> (''b'', 10)],
                [''b'' \<mapsto> (''b'', 11), ''a'' \<mapsto> (''a'', 3)]])"
    by (simp add: src_def sync_defs)
  have fin: "partitionSync_complete undef push doc_opts
       \<lparr>curr = Map.empty, first = False, currKeys = [], cache = Map.empty\<rparr> acc =
     (\<lparr>curr = Map.empty, first = False, currKeys = [], cache = Map.empty\<rparr>, Inr acc)"
    for acc :: "(string \<rightharpoonup> string \<times> int) list"
    by (simp add: sync_defs)
  show ?thesis
    unfolding fin using run order by simp
qed

text \<open>
  C6. The same inputs and labels with \<open>reset = false\<close>: the recording reducer is handed
  exactly \<open>{a: a2, b: b1}\<close>, \<open>{a: a2, b: b2}\<close> and \<open>{a: a3, b: b2}\<close>, in this order. After
  the first full tuple each input with a label of the set gives a tuple that keeps the
  other label's value; the completion call hands over nothing more.
\<close>

theorem C6_no_reset_example:
  "feed undef not_reduced push (doc_opts\<lparr>reset := False\<rparr>) [''a'', ''b''] src
     init_state [] =
     Some (\<lparr>curr = [''a'' \<mapsto> (''a'', 3), ''b'' \<mapsto> (''b'', 11)], first = False,
            currKeys = [''a'', ''b''], cache = Map.empty\<rparr>,
           Inr [[''a'' \<mapsto> (''a'', 2), ''b'' \<mapsto> (''b'', 10)],
                [''a'' \<mapsto> (''a'', 2), ''b'' \<mapsto> (''b'', 11)],
                [''a'' \<mapsto> (''a'', 3), ''b'' \<mapsto> (''b'', 11)]])
   \<and> snd (partitionSync_complete undef push (doc_opts\<lparr>reset := False\<rparr>)
       \<lparr>curr = [''a'' \<mapsto> (''a'', 3), ''b'' \<mapsto> (''b'', 11)], first = False,
        currKeys = [''a'', ''b''], cache = Map.empty\<rparr>
       [[''a'' \<mapsto> (''a'', 2), ''b'' \<mapsto> (''b'', 10)],
        [''a'' \<mapsto> (''a'', 2), ''b'' \<mapsto> (''b'', 11)],
        [''a'' \<mapsto> (''a'', 3), ''b'' \<mapsto> (''b'', 11)]]) =
     Inr [[''a'' \<mapsto> (''a'', 2), ''b'' \<mapsto> (''b'', 10)],
          [''a'' \<mapsto> (''a'', 2), ''b'' \<mapsto> (''b'', 11)],
          [''a'' \<mapsto> (''a'', 3), ''b'' \<mapsto> (''b'', 11)]]"
proof -
  have order: "[''b'' \<mapsto> (''b'', 11::int), ''a'' \<mapsto> (''a'', 3)] =
               [''a'' \<mapsto> (''a'', 3), ''b'' \<mapsto> (''b'', 11)]"
    by (rule tuple_order) simp
  have run: "feed undef not_reduced push (doc_opts\<lparr>reset := False\<rparr>)
       [''a'', ''b''] src init_state [] =
     Some (\<lparr>curr = [''b'' \<mapsto> (''b'', 11), ''a'' \<mapsto> (''a'', 3)], first = False,
            currKeys = [''a'', ''b''], cache = Map.empty\<rparr>,
           Inr [[''a'' \<mapsto> (''a'', 2), ''b'' \<mapsto> (''b'', 10)],
                [''a'' \<mapsto> (''a'', 2), ''b'' \<mapsto> (''b'', 11)],
                [''b'' \<mapsto> (''b'', 11), ''a'' \<mapsto> (''a'', 3)]])"
    by (simp add: src_def sync_defs)
  have fin: "snd (partitionSync_complete undef push (doc_opts\<lparr>reset := False\<rparr>)
       \<lparr>curr = m, first = False, currKeys = [''a'', ''b''], cache = Map.empty\<rparr> acc) = Inr acc"
    for acc :: "(string \<rightharpoonup> string \<times> int) list" and m
    by (simp add: sync_defs)
  show ?thesis
    unfolding fin using run order by simp
qed

subsection \<open>Back pressure: overflow and pairing in arrival order\<close>

text \<open>
  C2. With \<open>backPressure = 1\<close> (and \<open>mergeOnly\<close> off) and the labels \<open>a\<close> and \<open>b\<close>, a first
  value labelled \<open>a\<close> is cached and nothing is emitted; a second value labelled \<open>a\<close>,
  before any value labelled \<open>b\<close>, makes the reducing function throw the overflow error,
  which names the limit 1 and the label \<open>a\<close>. The error is the result of that very call.
\<close>

theorem C2_second_value_overflows:
  assumes "\<not> mergeOnly opt" and "backPressure opt = 1"
    and "key opt x1 = a" and "key opt x2 = a" and "a \<noteq> b"
  shows "partitionSync_reduce undef isReduced R opt [a, b] init_state acc x1 =
           Some (init_state\<lparr>currKeys := [a], cache := [a \<mapsto> [x1]]\<rparr>, Inr acc)
       \<and> partitionSync_reduce undef isReduced R opt [a, b]
             (init_state\<lparr>currKeys := [a], cache := [a \<mapsto> [x1]]\<rparr>) acc' x2 =
           Some (init_state\<lparr>currKeys := [a], cache := [a \<mapsto> [x1]]\<rparr>,
                 Inl (IllegalState 1 a))"
  using assms by (simp add: sync_defs drain.simps)

text \<open>The inputs \<open>(a, 1)\<close> and \<open>(a, 2)\<close> of the documented labels are such a pair.\<close>

theorem C2_second_value_overflows_witness:
  "\<not> mergeOnly (doc_opts\<lparr>backPressure := 1\<rparr>)
   \<and> backPressure (doc_opts\<lparr>backPressure := 1\<rparr>) = 1
   \<and> fst (''a'', 1::int) = ''a'' \<and> fst (''a'', 2::int) = ''a'' \<and> ''a'' \<noteq> ''b''
   \<and> partitionSync_reduce ('''', 0::int) not_reduced push (doc_opts\<lparr>backPressure := 1\<rparr>)
         [''a'', ''b''] init_state [] (''a'', 1::int) =
       Some (init_state\<lparr>currKeys := [''a''], cache := [''a'' \<mapsto> [(''a'', 1::int)]]\<rparr>, Inr [])
   \<and> partitionSync_reduce ('''', 0::int) not_reduced push (doc_opts\<lparr>backPressure := 1\<rparr>)
         [''a'', ''b''] (init_state\<lparr>currKeys := [''a''], cache := [''a'' \<mapsto> [(''a'', 1::int)]]\<rparr>)
         [] (''a'', 2::int) =
       Some (init_state\<lparr>currKeys := [''a''], cache := [''a'' \<mapsto> [(''a'', 1::int)]]\<rparr>,
             Inl (IllegalState 1 ''a''))"
  using C2_second_value_overflows
    [where opt = "doc_opts\<lparr>backPressure := 1\<rparr>" and a = "''a''" and b = "''b''"
       and ?x1.0 = "(''a'', 1::int)" and ?x2.0 = "(''a'', 2::int)" and undef = "('''', 0::int)"
       and isReduced = not_reduced and R = push and acc = "[]" and acc' = "[]"]
  by (simp add: doc_opts_def default_opts_def)

text \<open>
  C3. With \<open>backPressure = 2\<close> (and \<open>mergeOnly\<close> off) and the labels \<open>a\<close> and \<open>b\<close>: the
  values \<open>a1\<close> and \<open>a2\<close> are cached for \<open>a\<close> and nothing is emitted; the one call for
  \<open>b1\<close> then hands \<open>reduce\<close> exactly one tuple, \<open>{a: a1, b: b1}\<close>, and leaves \<open>a2\<close> cached
  for \<open>a\<close>; a following call for \<open>b2\<close> hands it exactly the tuple \<open>{a: a2, b: b2}\<close>.
\<close>

theorem C3_fifo_pairs_in_arrival_order:
  assumes "\<not> mergeOnly opt" and "backPressure opt = 2"
    and "key opt a1 = a" and "key opt a2 = a" and "key opt b1 = b" and "key opt b2 = b"
    and "a \<noteq> b"
  shows "feed undef isReduced R opt [a, b] [a1, a2] init_state acc =
           Some (init_state\<lparr>currKeys := [a], cache := [a \<mapsto> [a1, a2]]\<rparr>, Inr acc)
       \<and> partitionSync_reduce undef isReduced R opt [a, b]
             (init_state\<lparr>currKeys := [a], cache := [a \<mapsto> [a1, a2]]\<rparr>) acc b1 =
           Some (\<lparr>curr = Map.empty, first = False, currKeys = [a],
                   cache = [a \<mapsto> [a2], b \<mapsto> []]\<rparr>,
                 Inr (reduce R acc [a \<mapsto> a1, b \<mapsto> b1]))
       \<and> partitionSync_reduce undef isReduced R opt [a, b]
             \<lparr>curr = Map.empty, first = False, currKeys = [a],
              cache = [a \<mapsto> [a2], b \<mapsto> []]\<rparr> acc' b2 =
           Some (\<lparr>curr = Map.empty, first = False, currKeys = [],
                   cache = [a \<mapsto> [], b \<mapsto> []]\<rparr>,
                 Inr (reduce R acc' [a \<mapsto> a2, b \<mapsto> b2]))"
  using assms by (simp add: sync_defs drain.simps)

text \<open>
  The values \<open>(a, 1)\<close>, \<open>(a, 2)\<close>, \<open>(b, 10)\<close> and \<open>(b, 11)\<close> with the recording reducer:
  it holds \<open>{a: a1, b: b1}\<close> after the third call and \<open>{a: a2, b: b2}\<close> as well after the
  fourth.
\<close>

theorem C3_fifo_pairs_in_arrival_order_witness:
  "\<not> mergeOnly (doc_opts\<lparr>backPressure := 2\<rparr>)
   \<and> backPressure (doc_opts\<lparr>backPressure := 2\<rparr>) = 2
   \<and> ''a'' \<noteq> ''b''
   \<and> feed ('''', 0::int) not_reduced push (doc_opts\<lparr>backPressure := 2\<rparr>) [''a'', ''b'']
         [(''a'', 1::int), (''a'', 2::int)] init_state [] =
       Some (init_state\<lparr>currKeys := [''a''], cache := [''a'' \<mapsto> [(''a'', 1::int), (''a'', 2::int)]]\<rparr>,
             Inr [])
   \<and> partitionSync_reduce ('''', 0::int) not_reduced push (doc_opts\<lparr>backPressure := 2\<rparr>)
         [''a'', ''b'']
         (init_state\<lparr>currKeys := [''a''], cache := [''a'' \<mapsto> [(''a'', 1::int), (''a'', 2::int)]]\<rparr>)
         [] (''b'', 10::int) =
       Some (\<lparr>curr = Map.empty, first = False, currKeys = [''a''],
               cache = [''a'' \<mapsto> [(''a'', 2::int)], ''b'' \<mapsto> []]\<rparr>,
             Inr [[''a'' \<mapsto> (''a'', 1::int), ''b'' \<mapsto> (''b'', 10::int)]])
   \<and> partitionSync_reduce ('''', 0::int) not_reduced push (doc_opts\<lparr>backPressure := 2\<rparr>)
         [''a'', ''b'']
         \<lparr>curr = Map.empty, first = False, currKeys = [''a''],
          cache = [''a'' \<mapsto> [(''a'', 2::int)], ''b'' \<mapsto> []]\<rparr>
         [[''a'' \<mapsto> (''a'', 1::int), ''b'' \<mapsto> (''b'', 10::int)]] (''b'', 11::int) =
       Some (\<lparr>curr = Map.empty, first = False, currKeys = [],
               cache = [''a'' \<mapsto> [], ''b'' \<mapsto> []]\<rparr>,
             Inr [[''a'' \<mapsto> (''a'', 1::int), ''b'' \<mapsto> (''b'', 10::int)],
                  [''a'' \<mapsto> (''a'', 2::int), ''b'' \<mapsto> (''b'', 11::int)]])"
  using C3_fifo_pairs_in_arrival_order
    [where opt = "doc_opts\<lparr>backPressure := 2\<rparr>" and a = "''a''" and b = "''b''"
       and ?a1.0 = "(''a'', 1::int)" and ?a2.0 = "(''a'', 2::int)"
       and ?b1.0 = "(''b'', 10::int)" and ?b2.0 = "(''b'', 11::int)" and undef = "('''', 0::int)"
       and isReduced = not_reduced and R = push and acc = "[]"
       and acc' = "[[''a'' \<mapsto> (''a'', 1::int), ''b'' \<mapsto> (''b'', 10::int)]]"]
  by (simp add: doc_opts_def default_opts_def push_def)

subsection \<open>The only errors of the draining loop\<close>

lemma collect_loop_error:
  "collect_loop undef ids ca cks cur = (ca', cks', Inl e) \<Longrightarrow> e = TypeError"
  by (induction undef ids ca cks cur rule: collect_loop.induct)
     (auto split: option.splits list.splits if_splits)

lemma drain_error_aux:
  assumes "drain undef isReduced R ks s acc = Some y"
  shows "\<forall>s' e. y = (s', Inl e) \<longrightarrow> e = TypeError"
proof (rule drain.raw_induct
    [where P = "\<lambda>undef isReduced R ks s acc y. \<forall>s' e. y = (s', Inl e) \<longrightarrow> e = TypeError",
     OF _ assms])
  fix d undef isReduced R ks s acc y
  assume IH: "\<And>isReduced R ks s acc b y. d isReduced R ks s acc b = Some y
                \<Longrightarrow> \<forall>s' e. y = (s', Inl e) \<longrightarrow> e = TypeError"
    and body: "(if requiredInputs ks (currKeys s)
      then case collect undef (cache s) (currKeys s) of
           (ca, cks, Inl e) \<Rightarrow> Some (s\<lparr>cache := ca, currKeys := cks\<rparr>, Inl e)
           | (ca, cks, Inr t) \<Rightarrow>
               if isReduced (reduce R acc t)
               then Some (s\<lparr>cache := ca, currKeys := cks, first := False\<rparr>,
                      Inr (reduce R acc t))
               else d undef isReduced R ks
                     (s\<lparr>cache := ca, currKeys := cks, first := False\<rparr>)
                     (reduce R acc t)
      else Some (s, Inr acc)) = Some y"
  show "\<forall>s' e. y = (s', Inl e) \<longrightarrow> e = TypeError"
  proof (cases "requiredInputs ks (currKeys s)")
    case False
    with body have "y = (s, Inr acc)" by simp
    then show ?thesis by simp
  next
    case required: True
    obtain ca cks r where c: "collect undef (cache s) (currKeys s) = (ca, cks, r)"
      by (cases "collect undef (cache s) (currKeys s)") auto
    show ?thesis
    proof (cases r)
      case (Inl e)
      with c have "e = TypeError"
        by (auto simp: collect_def dest: collect_loop_error)
      moreover from body required c Inl
      have "y = (s\<lparr>cache := ca, currKeys := cks\<rparr>, Inl e)" by simp
      ultimately show ?thesis by simp
    next
      case (Inr t)
      show ?thesis
      proof (cases "isReduced (reduce R acc t)")
        case True
        with body required c Inr
        have "y = (s\<lparr>cache := ca, currKeys := cks, first := False\<rparr>, Inr (reduce R acc t))"
          by simp
        then show ?thesis by simp
      next
        case False
        with body required c Inr
        have "d undef isReduced R ks (s\<lparr>cache := ca, currKeys := cks, first := False\<rparr>)
                (reduce R acc t) = Some y"
          by simp
        then show ?thesis by (rule IH)
      qed
    qed
  qed
qed

lemma drain_error:
  "drain undef isReduced R ks s acc = Some (s', Inl e) \<Longrightarrow> e = TypeError"
  by (drule drain_error_aux) simp

text \<open>
  C10. With back pressure on (\<open>mergeOnly\<close> off and \<open>backPressure \<ge> 1\<close>), a call of the
  reducing function that throws the overflow error leaves the whole state as it was
  before the call: no value is pushed, no slot is created or changed, and the present
  labels are the same. The error names the configured limit and the label of the input.
\<close>

theorem C10_overflow_leaves_state:
  assumes "\<not> mergeOnly opt" and "1 \<le> backPressure opt"
    and "partitionSync_reduce undef isReduced R opt ks s acc x =
           Some (s', Inl (IllegalState n k))"
  shows "s' = s \<and> n = backPressure opt \<and> k = key opt x"
  using assms
  by (auto simp: partitionSync_reduce_def unbounded_def fifo_reduce_def Let_def
           split: if_splits option.splits dest: drain_error)

text \<open>
  With \<open>backPressure = 1\<close> and \<open>(a, 1)\<close> cached, the call for \<open>(a, 2)\<close> throws and the
  state it leaves is the state it found.
\<close>

theorem C10_overflow_leaves_state_witness:
  "\<not> mergeOnly (doc_opts\<lparr>backPressure := 1\<rparr>)
   \<and> 1 \<le> backPressure (doc_opts\<lparr>backPressure := 1\<rparr>)
   \<and> partitionSync_reduce ('''', 0::int) not_reduced push
         (doc_opts\<lparr>backPressure := 1\<rparr>) [''a'', ''b'']
         (init_state\<lparr>currKeys := [''a''], cache := [''a'' \<mapsto> [(''a'', 1::int)]]\<rparr>)
         [] (''a'', 2::int) =
       Some (init_state\<lparr>currKeys := [''a''], cache := [''a'' \<mapsto> [(''a'', 1::int)]]\<rparr>,
             Inl (IllegalState 1 ''a''))
   \<and> 1 = backPressure (doc_opts\<lparr>backPressure := 1\<rparr>)
   \<and> ''a'' = key (doc_opts\<lparr>backPressure := 1\<rparr>) (''a'', 2::int)"
proof -
  have h1: "\<not> mergeOnly (doc_opts\<lparr>backPressure := 1\<rparr>)"
    and h2: "1 \<le> backPressure (doc_opts\<lparr>backPressure := 1\<rparr>)"
    by (simp_all add: doc_opts_def default_opts_def)
  have h3: "partitionSync_reduce ('''', 0::int) not_reduced push
         (doc_opts\<lparr>backPressure := 1\<rparr>) [''a'', ''b'']
         (init_state\<lparr>currKeys := [''a''], cache := [''a'' \<mapsto> [(''a'', 1::int)]]\<rparr>)
         [] (''a'', 2::int) =
       Some (init_state\<lparr>currKeys := [''a''], cache := [''a'' \<mapsto> [(''a'', 1::int)]]\<rparr>,
             Inl (IllegalState 1 ''a''))"
    by (simp add: sync_defs)
  from C10_overflow_leaves_state [OF h1 h2 h3] h1 h2 h3 show ?thesis
    by simp
qed

subsection \<open>Completion\<close>

text \<open>
  C8. In both reducers, for every option record and every state: once a completion call
  has returned, a second completion call emits nothing. It hands its accumulator
  straight to the downstream \<open>complete\<close>, without a call of \<open>reduce\<close>, and leaves the
  state as the first call left it. So the final tuple is flushed at most once.
\<close>

theorem C8_complete_twice:
  assumes "partitionSync_complete undef R opt s acc = (s1, Inr acc1)"
  shows "partitionSync_complete undef R opt s1 acc2 = (s1, Inr (complete R acc2))"
  using assms
  by (auto simp: partitionSync_complete_def latest_complete_def fifo_complete_def unbounded_def
           split: if_splits prod.splits sum.splits)

text \<open>
  With \<open>backPressure = 2\<close> and \<open>(a, 1)\<close>, \<open>(a, 2)\<close> cached, the first completion call
  flushes \<open>{a: (a, 1)}\<close>; the second adds nothing to what has been recorded.
\<close>

theorem C8_complete_twice_witness:
  "partitionSync_complete ('''', 0::int) push (doc_opts\<lparr>backPressure := 2\<rparr>)
     (init_state\<lparr>currKeys := [''a''], cache := [''a'' \<mapsto> [(''a'', 1::int), (''a'', 2::int)]]\<rparr>)
     [] =
     (init_state\<lparr>currKeys := [], cache := [''a'' \<mapsto> [(''a'', 2::int)]]\<rparr>,
      Inr [[''a'' \<mapsto> (''a'', 1::int)]])
   \<and> partitionSync_complete ('''', 0::int) push (doc_opts\<lparr>backPressure := 2\<rparr>)
       (init_state\<lparr>currKeys := [], cache := [''a'' \<mapsto> [(''a'', 2::int)]]\<rparr>)
       [[''a'' \<mapsto> (''a'', 1::int)]] =
     (init_state\<lparr>currKeys := [], cache := [''a'' \<mapsto> [(''a'', 2::int)]]\<rparr>,
      Inr [[''a'' \<mapsto> (''a'', 1::int)]])"
proof -
  have h: "partitionSync_complete ('''', 0::int) push (doc_opts\<lparr>backPressure := 2\<rparr>)
     (init_state\<lparr>currKeys := [''a''], cache := [''a'' \<mapsto> [(''a'', 1::int), (''a'', 2::int)]]\<rparr>)
     [] =
     (init_state\<lparr>currKeys := [], cache := [''a'' \<mapsto> [(''a'', 2::int)]]\<rparr>,
      Inr [[''a'' \<mapsto> (''a'', 1::int)]])"
    by (simp add: sync_defs)
  from C8_complete_twice [OF h, of "[[''a'' \<mapsto> (''a'', 1::int)]]"] h show ?thesis
    by (simp add: push_def)
qed

text \<open>
  C5, at an input where the code and the claim part. With \<open>reset = false\<close> and
  \<open>all = false\<close>, the labels \<open>a\<close> and \<open>b\<close> and the one input \<open>(a, 1)\<close>, no tuple has been
  emitted when the input ends, and the completion call flushes the incomplete tuple
  \<open>{a: (a, 1)}\<close>: the disjunct \<open>!reset && first\<close> of its test does not look at \<open>all\<close>.
  The documentation of \<open>partitionSync\<close> says that \<open>all = false\<close> allows complete tuples
  only, and the other two tests for the final tuple do require \<open>all\<close>.
\<close>

theorem C5_flush_with_all_false:
  "feed ('''', 0::int) not_reduced push (doc_opts\<lparr>reset := False, all := False\<rparr>)
     [''a'', ''b''] [(''a'', 1::int)] init_state [] =
     Some (init_state\<lparr>curr := [''a'' \<mapsto> (''a'', 1::int)], currKeys := [''a'']\<rparr>, Inr [])
   \<and> partitionSync_complete ('''', 0::int) push
       (doc_opts\<lparr>reset := False, all := False\<rparr>)
       (init_state\<lparr>curr := [''a'' \<mapsto> (''a'', 1::int)], currKeys := [''a'']\<rparr>) [] =
     (init_state\<lparr>first := False\<rparr>, Inr [[''a'' \<mapsto> (''a'', 1::int)]])"
  by (simp add: sync_defs)

subsection \<open>Inputs with labels outside the label set\<close>

lemma reduce_foreign_label:
  "\<not> set_has ks (key opt x) \<Longrightarrow>
     partitionSync_reduce undef isReduced R opt ks s acc x = Some (s, Inr acc)"
  by (simp add: partitionSync_reduce_def latest_reduce_def fifo_reduce_def Let_def)

lemma feed_foreign_labels:
  "list_all (\<lambda>x. \<not> set_has ks (key opt x)) xs \<Longrightarrow>
     feed undef isReduced R opt ks xs s acc = Some (s, Inr acc)"
  by (induction xs) (simp_all add: reduce_foreign_label)

text \<open>
  C7, as the code has it. If no input has a label of the label set, the calls of the
  reducing function emit nothing and change nothing, in every configuration, whatever the
  state, the downstream reducer and its accumulator. The completion call then emits
  nothing either when no label is present and \<open>reset\<close> is on or back pressure is in force.
\<close>

theorem C7_foreign_labels_emit_nothing:
  assumes "list_all (\<lambda>x. \<not> set_has ks (key opt x)) xs"
  shows "feed undef isReduced R opt ks xs s acc = Some (s, Inr acc)
       \<and> ((reset opt \<or> \<not> unbounded opt) \<and> currKeys s = [] \<longrightarrow>
            partitionSync_complete undef R opt s acc = (s, Inr (complete R acc)))"
  using assms
  by (auto simp: feed_foreign_labels partitionSync_complete_def latest_complete_def
        fifo_complete_def)

text \<open>The inputs \<open>(d, 100)\<close> and \<open>(c, 0)\<close> with the default options and the labels \<open>a\<close>, \<open>b\<close>.\<close>

theorem C7_foreign_labels_emit_nothing_witness:
  "list_all (\<lambda>x. \<not> set_has [''a'', ''b''] (key doc_opts x))
     [(''d'', 100::int), (''c'', 0::int)]
   \<and> feed ('''', 0::int) not_reduced push doc_opts [''a'', ''b'']
       [(''d'', 100::int), (''c'', 0::int)] init_state [] = Some (init_state, Inr [])
   \<and> (reset doc_opts
        \<or> \<not> unbounded doc_opts)
   \<and> currKeys (init_state :: (string, string \<times> int) state) = []
   \<and> partitionSync_complete ('''', 0::int) push doc_opts
         (init_state :: (string, string \<times> int) state) [] =
       (init_state, Inr [])"
proof -
  have h: "list_all (\<lambda>x. \<not> set_has [''a'', ''b''] (key doc_opts x))
     [(''d'', 100::int), (''c'', 0::int)]"
    by (simp add: doc_opts_def default_opts_def set_has_def)
  have r: "reset doc_opts"
    and k: "currKeys (init_state :: (string, string \<times> int) state) = []"
    by (simp_all add: doc_opts_def default_opts_def init_state_def)
  note t = C7_foreign_labels_emit_nothing
    [OF h, of "('''', 0::int)" not_reduced push init_state "[]"]
  from t have a: "feed ('''', 0::int) not_reduced push doc_opts [''a'', ''b'']
       [(''d'', 100::int), (''c'', 0::int)] init_state [] = Some (init_state, Inr [])"
    by (rule conjunct1)
  from t r k have b: "partitionSync_complete ('''', 0::int) push doc_opts
         (init_state :: (string, string \<times> int) state) [] =
       (init_state, Inr (complete push []))"
    by blast
  then have "partitionSync_complete ('''', 0::int) push doc_opts
         (init_state :: (string, string \<times> int) state) [] =
       (init_state, Inr [])"
    by (simp add: push_def)
  with h a r k show ?thesis
    by blast
qed

text \<open>
  The claim C7 as stated fails with \<open>reset = false\<close> (and \<open>all = true\<close>): after the one
  input \<open>(d, 100)\<close>, whose label is not in \<open>{a, b}\<close>, the completion call hands the
  recording reducer the empty tuple.
\<close>

theorem C7_counterexample:
  "list_all (\<lambda>x. \<not> set_has [''a'', ''b''] (key (doc_opts\<lparr>reset := False\<rparr>) x))
     [(''d'', 100::int)]
   \<and> feed ('''', 0::int) not_reduced push (doc_opts\<lparr>reset := False\<rparr>) [''a'', ''b'']
       [(''d'', 100::int)] init_state [] = Some (init_state, Inr [])
   \<and> partitionSync_complete ('''', 0::int) push (doc_opts\<lparr>reset := False\<rparr>)
       (init_state :: (string, string \<times> int) state) [] =
     (init_state\<lparr>first := False\<rparr>, Inr [Map.empty])"
  by (simp add: sync_defs)

subsection \<open>What \<open>collect\<close> and the draining loop compute\<close>






subsection \<open>Which reducer \<open>partitionSync\<close> builds\<close>




subsection \<open>The labels of the current tuple\<close>

lemma latest_reduce_dom:
  "dom (curr s) \<subseteq> set ks \<Longrightarrow> dom (curr (fst (latest_reduce R opt ks s acc x))) \<subseteq> set ks"
  by (auto simp: latest_reduce_def Let_def set_has_def split: if_splits)

lemma latest_complete_dom:
  "dom (curr (fst (latest_complete R opt s acc))) \<subseteq> dom (curr s)"
  by (auto simp: latest_complete_def)

lemma keeps_held_prefix:
  "keeps_held R opt (es1 @ es2) ks s acc \<Longrightarrow> keeps_held R opt es1 ks s acc"
proof (induction es1 arbitrary: ks s acc)
  case Nil
  show ?case by simp
next
  case (Cons e es1)
  then show ?case
    by (cases e) (auto split: prod.splits)
qed

lemma keys_within_at_end:
  assumes "keeps_held R opt es ks s acc" and "dom (curr s) \<subseteq> set ks"
    and "latest_events R opt es ks s acc = (ks', s', acc')"
  shows "dom (curr s') \<subseteq> set ks'"
  using assms
proof (induction es arbitrary: ks s acc)
  case Nil
  then show ?case by simp
next
  case (Cons e es)
  show ?case
  proof (cases e)
    case (Ingest x)
    obtain s1 acc1 where r: "latest_reduce R opt ks s acc x = (s1, acc1)"
      by (cases "latest_reduce R opt ks s acc x")
    from Cons.prems(1) Ingest r have "keeps_held R opt es ks s1 acc1" by simp
    moreover from latest_reduce_dom [OF Cons.prems(2), of R opt acc x] r
    have "dom (curr s1) \<subseteq> set ks" by simp
    moreover from Cons.prems(3) Ingest r
    have "latest_events R opt es ks s1 acc1 = (ks', s', acc')" by simp
    ultimately show ?thesis by (rule Cons.IH)
  next
    case Complete
    obtain s1 acc1 where r: "latest_complete R opt s acc = (s1, acc1)"
      by (cases "latest_complete R opt s acc")
    from Cons.prems(1) Complete r have "keeps_held R opt es ks s1 acc1" by simp
    moreover from latest_complete_dom [of R opt s acc] r Cons.prems(2)
    have "dom (curr s1) \<subseteq> set ks" by auto
    moreover from Cons.prems(3) Complete r
    have "latest_events R opt es ks s1 acc1 = (ks', s', acc')" by simp
    ultimately show ?thesis by (rule Cons.IH)
  next
    case (Relabel ks1)
    from Cons.prems(1) Relabel have "keeps_held R opt es ks1 s acc"
      and "dom (curr s) \<subseteq> set ks1"
      by simp_all
    moreover from Cons.prems(3) Relabel
    have "latest_events R opt es ks1 s acc = (ks', s', acc')" by simp
    ultimately show ?thesis by (rule Cons.IH)
  qed
qed

text \<open>
  C9, as the code has it. Without back pressure, the labels of the current tuple \<open>curr\<close>
  are within the label set at every point of a run (after every call of the reducing
  function and of the completion function, and after every change of the label set by
  its owner), as long as no change of the label set removes a label that \<open>curr\<close> holds at
  that moment. Labels may be added, and labels that \<open>curr\<close> does not hold may be removed.
  (The reducer never takes a label out of \<open>curr\<close> because it has left the label set.)
\<close>

theorem C9_keys_within_label_set:
  assumes "keeps_held R opt (es1 @ es2) ks s acc" and "dom (curr s) \<subseteq> set ks"
    and "latest_events R opt es1 ks s acc = (ks', s', acc')"
  shows "dom (curr s') \<subseteq> set ks'"
  using keeps_held_prefix [OF assms(1)] assms(2,3) by (rule keys_within_at_end)

text \<open>
  A run from the initial state in which labels are removed: \<open>c\<close> is removed while \<open>curr\<close>
  holds \<open>a\<close> only, and later \<open>a\<close> is removed after the tuple \<open>{a, b}\<close> has been emitted and
  \<open>curr\<close> has been reset. After the first removal \<open>curr\<close> is \<open>{a: (a, 1)}\<close> and the label
  set is \<open>{a, b}\<close>.
\<close>

theorem C9_keys_within_label_set_witness:
  "keeps_held push doc_opts
     ([Ingest (''a'', 1::int), Relabel [''a'', ''b'']]
      @ [Ingest (''b'', 10::int), Relabel [''b''], Ingest (''b'', 11::int)])
     [''a'', ''b'', ''c''] init_state []
   \<and> dom (curr (init_state :: (string, string \<times> int) state)) \<subseteq> set [''a'', ''b'', ''c'']
   \<and> latest_events push doc_opts [Ingest (''a'', 1::int), Relabel [''a'', ''b'']]
       [''a'', ''b'', ''c''] init_state [] =
     ([''a'', ''b''], init_state\<lparr>curr := [''a'' \<mapsto> (''a'', 1::int)], currKeys := [''a'']\<rparr>, [])
   \<and> dom (curr ((init_state :: (string, string \<times> int) state)
               \<lparr>curr := [''a'' \<mapsto> (''a'', 1::int)], currKeys := [''a'']\<rparr>))
       \<subseteq> set [''a'', ''b'']"
proof -
  have h1: "keeps_held push doc_opts
     ([Ingest (''a'', 1::int), Relabel [''a'', ''b'']]
      @ [Ingest (''b'', 10::int), Relabel [''b''], Ingest (''b'', 11::int)])
     [''a'', ''b'', ''c''] init_state []"
    by (simp add: sync_defs)
  have h2: "dom (curr (init_state :: (string, string \<times> int) state))
      \<subseteq> set [''a'', ''b'', ''c'']"
    by (simp add: init_state_def)
  have h3: "latest_events push doc_opts [Ingest (''a'', 1::int), Relabel [''a'', ''b'']]
       [''a'', ''b'', ''c''] init_state [] =
     ([''a'', ''b''], init_state\<lparr>curr := [''a'' \<mapsto> (''a'', 1::int)], currKeys := [''a'']\<rparr>, [])"
    by (simp add: sync_defs)
  from C9_keys_within_label_set [OF h1 h2 h3] h1 h2 h3 show ?thesis
    by blast
qed

text \<open>
  The claim C9 as stated fails when a label is taken out of the label set: with the
  default options and the labels \<open>a\<close>, \<open>b\<close>, \<open>c\<close>, the value \<open>(a, 1)\<close> is taken into \<open>curr\<close>;
  the owner then removes \<open>a\<close>; after the next call, for \<open>(b, 10)\<close>, \<open>curr\<close> still has the
  label \<open>a\<close>, which is not in the label set \<open>{b, c}\<close>.
\<close>

theorem C9_counterexample:
  "latest_events push doc_opts
     [Ingest (''a'', 1::int), Relabel [''b'', ''c''], Ingest (''b'', 10::int)]
     [''a'', ''b'', ''c''] init_state [] =
     ([''b'', ''c''],
      \<lparr>curr = [''a'' \<mapsto> (''a'', 1::int), ''b'' \<mapsto> (''b'', 10::int)], first = True,
       currKeys = [''a'', ''b''], cache = Map.empty\<rparr>, [])
   \<and> ''a'' \<in> dom [''a'' \<mapsto> (''a'', 1::int), ''b'' \<mapsto> (''b'', 10::int)]
   \<and> ''a'' \<notin> set [''b'', ''c'']"
  by (simp add: sync_defs)

subsection \<open>The reducer with back pressure always returns\<close>

lemma present_okD:
  "present_ok ca cks \<Longrightarrow> k \<in> set cks \<Longrightarrow> \<exists>v rest. ca k = Some (v # rest)"
  by (auto simp: present_ok_def list_all_iff split: option.splits list.splits)
     (metis list.exhaust)

lemma backlog_shift:
  assumes "distinct cks" and "k \<in> set cks" and "ca k = Some (v # rest)"
  shows "Suc (backlog (ca(k \<mapsto> rest)) (if rest = [] then set_delete k cks else cks))
           \<le> backlog ca cks"
proof -
  let ?f = "\<lambda>j. Suc (length (queue ca j))"
  let ?g = "\<lambda>j. Suc (length (queue (ca(k \<mapsto> rest)) j))"
  define S where "S = sum_list (map ?f (remove1 k cks))"
  from assms(1,2) have "k \<notin> set (remove1 k cks)" by simp
  then have "map ?g (remove1 k cks) = map ?f (remove1 k cks)"
    by (intro map_cong) (auto simp: queue_def)
  then have g1: "sum_list (map ?g (remove1 k cks)) = S"
    unfolding S_def by (rule arg_cong)
  from assms(3) have fk: "?f k = Suc (Suc (length rest))" and gk: "?g k = Suc (length rest)"
    by (simp_all add: queue_def)
  have f: "backlog ca cks = Suc (Suc (length rest)) + S"
    unfolding backlog_def S_def sum_list_map_remove1 [OF assms(2), of ?f] fk ..
  have g: "backlog (ca(k \<mapsto> rest)) cks = Suc (length rest) + S"
    unfolding backlog_def sum_list_map_remove1 [OF assms(2), of ?g] gk g1 ..
  from assms(1) have "set_delete k cks = remove1 k cks"
    by (simp add: set_delete_def distinct_remove1_removeAll)
  then have d: "backlog (ca(k \<mapsto> rest)) (set_delete k cks) = S"
    using g1 by (simp only: backlog_def)
  show ?thesis
    using f g d by (cases "rest = []") simp_all
qed

lemma collect_loop_ok:
  assumes "distinct ids" and "set ids \<subseteq> set cks" and "present_ok ca cks"
  shows "\<exists>ca' cks' t. collect_loop undef ids ca cks cur = (ca', cks', Inr t)
           \<and> present_ok ca' cks'
           \<and> backlog ca' cks' + length ids \<le> backlog ca cks
           \<and> (\<forall>j. length (queue ca' j) \<le> length (queue ca j))"
  using assms
proof (induction ids arbitrary: ca cks cur)
  case Nil
  then show ?case by simp
next
  case (Cons k ids)
  from Cons.prems have kin: "k \<in> set cks" and knot: "k \<notin> set ids" and dids: "distinct ids"
    and sub: "set ids \<subseteq> set cks" and dcks: "distinct cks"
    by (auto simp: present_ok_def)
  from present_okD [OF Cons.prems(3) kin] obtain v rest where slot: "ca k = Some (v # rest)"
    by blast
  let ?ca1 = "ca(k \<mapsto> rest)"
  let ?cks1 = "if rest = [] then set_delete k cks else cks"
  have ok1: "present_ok ?ca1 ?cks1"
    using Cons.prems(3) by (auto simp: present_ok_def set_delete_def list_all_iff distinct_removeAll)
  have sub1: "set ids \<subseteq> set ?cks1"
    using sub knot by (auto simp: set_delete_def)
  from Cons.IH [OF dids sub1 ok1, of "cur(k \<mapsto> v)"]
  obtain ca' cks' t where
    r: "collect_loop undef ids ?ca1 ?cks1 (cur(k \<mapsto> v)) = (ca', cks', Inr t)"
    and ok': "present_ok ca' cks'"
    and b': "backlog ca' cks' + length ids \<le> backlog ?ca1 ?cks1"
    and q': "\<forall>j. length (queue ca' j) \<le> length (queue ?ca1 j)"
    by blast
  have step: "collect_loop undef (k # ids) ca cks cur = (ca', cks', Inr t)"
    using slot r by simp
  from backlog_shift [where ca = ca and k = k, OF dcks kin slot] b'
  have b: "backlog ca' cks' + length (k # ids) \<le> backlog ca cks" by simp
  have "length (queue ?ca1 j) \<le> length (queue ca j)" for j
    using slot by (simp add: queue_def)
  with q' have q: "\<forall>j. length (queue ca' j) \<le> length (queue ca j)"
    by (meson le_trans)
  from step ok' b q show ?case by blast
qed


lemma collect_ok:
  assumes "present_ok ca cks"
  shows "\<exists>ca' cks' t. collect undef ca cks = (ca', cks', Inr t)
           \<and> present_ok ca' cks'
           \<and> backlog ca' cks' + length cks \<le> backlog ca cks
           \<and> (\<forall>j. length (queue ca' j) \<le> length (queue ca j))"
  unfolding collect_def
  using assms by (intro collect_loop_ok) (simp_all add: present_ok_def)

lemma drain_returns:
  assumes "present_ok (cache s) (currKeys s)" and "ks \<noteq> []"
  shows "\<exists>s' acc'. drain undef isReduced R ks s acc = Some (s', Inr acc')
           \<and> present_ok (cache s') (currKeys s')
           \<and> (\<forall>j. length (queue (cache s') j) \<le> length (queue (cache s) j))"
  using assms(1)
proof (induction "backlog (cache s) (currKeys s)" arbitrary: s acc rule: less_induct)
  case less
  show ?case
  proof (cases "requiredInputs ks (currKeys s)")
    case False
    then have "drain undef isReduced R ks s acc = Some (s, Inr acc)"
      by (subst drain.simps) simp
    with less.prems show ?thesis by simp
  next
    case True
    with assms(2) have nonempty: "0 < length (currKeys s)"
      by (cases ks) (auto simp: requiredInputs_def split: if_splits)
    from collect_ok [OF less.prems, of undef] obtain ca' cks' t where
      c: "collect undef (cache s) (currKeys s) = (ca', cks', Inr t)"
      and ok': "present_ok ca' cks'"
      and b': "backlog ca' cks' + length (currKeys s) \<le> backlog (cache s) (currKeys s)"
      and q': "\<forall>j. length (queue ca' j) \<le> length (queue (cache s) j)"
      by blast
    let ?s1 = "s\<lparr>cache := ca', currKeys := cks', first := False\<rparr>"
    show ?thesis
    proof (cases "isReduced (reduce R acc t)")
      case True
      with \<open>requiredInputs ks (currKeys s)\<close> c
      have "drain undef isReduced R ks s acc = Some (?s1, Inr (reduce R acc t))"
        by (subst drain.simps) simp
      with ok' q' show ?thesis by simp
    next
      case False
      with \<open>requiredInputs ks (currKeys s)\<close> c
      have unfold: "drain undef isReduced R ks s acc =
                      drain undef isReduced R ks ?s1 (reduce R acc t)"
        by (subst drain.simps) simp
      from b' nonempty
      have "backlog (cache ?s1) (currKeys ?s1) < backlog (cache s) (currKeys s)"
        by (cases "currKeys s") simp_all
      moreover from ok' have "present_ok (cache ?s1) (currKeys ?s1)" by simp
      ultimately obtain s' acc' where
        d: "drain undef isReduced R ks ?s1 (reduce R acc t) = Some (s', Inr acc')"
        and ok: "present_ok (cache s') (currKeys s')"
        and q: "\<forall>j. length (queue (cache s') j) \<le> length (queue (cache ?s1) j)"
        using less.hyps [of ?s1 "reduce R acc t"] by blast
      from q q' have "\<forall>j. length (queue (cache s') j) \<le> length (queue (cache s) j)"
        by (auto intro: le_trans)
      with unfold d ok show ?thesis by simp
    qed
  qed
qed


lemma fifo_reduce_ok:
  assumes "1 \<le> backPressure opt"
    and "present_ok (cache s) (currKeys s)"
    and "\<forall>j. int (length (queue (cache s) j)) \<le> backPressure opt"
  shows "\<exists>s' r. fifo_reduce undef isReduced R opt ks s acc x = Some (s', r)
           \<and> present_ok (cache s') (currKeys s')
           \<and> (\<forall>j. int (length (queue (cache s') j)) \<le> backPressure opt)
           \<and> (r = Inl (IllegalState (backPressure opt) (key opt x)) \<and> s' = s
               \<or> (\<exists>acc'. r = Inr acc'))"
proof (cases "set_has ks (key opt x)")
  case False
  with assms show ?thesis by (simp add: fifo_reduce_def)
next
  case True
  define k where "k = key opt x"
  define slot where "slot = queue (cache s) k"
  define ca1 where "ca1 = (case cache s k of None \<Rightarrow> (cache s)(k \<mapsto> []) | Some sl \<Rightarrow> cache s)"
  define s1 where "s1 = s\<lparr>cache := ca1(k \<mapsto> slot @ [x]), currKeys := set_add k (currKeys s)\<rparr>"
  from True have ks: "ks \<noteq> []" by (auto simp: set_has_def)
  have eq: "fifo_reduce undef isReduced R opt ks s acc x =
      (if backPressure opt \<le> int (length slot)
       then Some (s\<lparr>cache := ca1\<rparr>, Inl (IllegalState (backPressure opt) k))
       else drain undef isReduced R ks s1 acc)"
    using True unfolding s1_def ca1_def slot_def queue_def k_def
    by (simp add: fifo_reduce_def Let_def)
  show ?thesis
  proof (cases "backPressure opt \<le> int (length slot)")
    case over: True
    with assms(1) have "slot \<noteq> []" by auto
    then have "ca1 = cache s"
      by (auto simp: ca1_def slot_def queue_def split: option.splits)
    with eq over have "fifo_reduce undef isReduced R opt ks s acc x =
        Some (s, Inl (IllegalState (backPressure opt) (key opt x)))"
      by (simp add: k_def)
    with assms(2,3) show ?thesis by simp
  next
    case False
    have q1: "queue (cache s1) j = (if j = k then slot @ [x] else queue (cache s) j)" for j
      by (auto simp: s1_def queue_def ca1_def split: option.splits)
    from False have b1: "\<forall>j. int (length (queue (cache s1) j)) \<le> backPressure opt"
      using assms(3) by (auto simp: q1)
    have c1: "cache s1 j = (if j = k then Some (slot @ [x]) else cache s j)" for j
      by (auto simp: s1_def ca1_def split: option.splits)
    have k1: "currKeys s1 = set_add k (currKeys s)"
      by (simp add: s1_def)
    from assms(2) have ok1: "present_ok (cache s1) (currKeys s1)"
      unfolding present_ok_def list_all_iff
      by (auto simp: c1 k1 set_add_def set_has_def split: if_splits)
    from drain_returns [OF ok1 ks, of undef isReduced R acc] obtain s' acc' where
      d: "drain undef isReduced R ks s1 acc = Some (s', Inr acc')"
      and ok: "present_ok (cache s') (currKeys s')"
      and q: "\<forall>j. length (queue (cache s') j) \<le> length (queue (cache s1) j)"
      by blast
    have "int (length (queue (cache s') j)) \<le> backPressure opt" for j
      using q [rule_format, of j] b1 [rule_format, of j] by linarith
    then have "\<forall>j. int (length (queue (cache s') j)) \<le> backPressure opt" ..
    with eq False d ok show ?thesis by simp
  qed
qed


lemma init_state_ok:
  "present_ok (cache init_state) (currKeys init_state)"
  "int (length (queue (cache init_state) j)) \<le> backPressure opt \<longleftrightarrow> 0 \<le> backPressure opt"
  by (simp_all add: init_state_def present_ok_def queue_def)

lemma feed_ok:
  assumes "\<not> mergeOnly opt" and "1 \<le> backPressure opt"
    and "present_ok (cache s) (currKeys s)"
    and "\<forall>j. int (length (queue (cache s) j)) \<le> backPressure opt"
  shows "\<exists>s' r. feed undef isReduced R opt ks xs s acc = Some (s', r)
           \<and> present_ok (cache s') (currKeys s')
           \<and> (\<forall>j. int (length (queue (cache s') j)) \<le> backPressure opt)
           \<and> ((\<exists>k. r = Inl (IllegalState (backPressure opt) k)) \<or> (\<exists>acc'. r = Inr acc'))"
  using assms(3,4)
proof (induction xs arbitrary: s acc)
  case Nil
  then show ?case by simp
next
  case (Cons x xs)
  from assms(1,2) have mode: "partitionSync_reduce undef isReduced R opt ks s acc x =
      fifo_reduce undef isReduced R opt ks s acc x"
    by (simp add: partitionSync_reduce_def unbounded_def)
  from fifo_reduce_ok [OF assms(2) Cons.prems, of undef isReduced R ks acc x]
  obtain s1 r1 where
    step: "fifo_reduce undef isReduced R opt ks s acc x = Some (s1, r1)"
    and ok1: "present_ok (cache s1) (currKeys s1)"
    and b1: "\<forall>j. int (length (queue (cache s1) j)) \<le> backPressure opt"
    and r1: "r1 = Inl (IllegalState (backPressure opt) (key opt x)) \<and> s1 = s
             \<or> (\<exists>acc'. r1 = Inr acc')"
    by blast
  show ?case
  proof (cases r1)
    case (Inl e)
    with r1 have "e = IllegalState (backPressure opt) (key opt x)" by auto
    with mode step Inl ok1 b1 show ?thesis by auto
  next
    case (Inr acc1)
    with mode step have "feed undef isReduced R opt ks (x # xs) s acc =
        feed undef isReduced R opt ks xs s1 acc1"
      by simp
    with Cons.IH [OF ok1 b1, of acc1] show ?thesis by simp
  qed
qed

text \<open>
  With back pressure on, on every state in which each present label has a slot that is
  not empty and no label has more than \<open>backPressure\<close> values cached, a call of the
  reducing function returns: the draining loop ends. It returns normally or with the
  overflow error for the label of its input, in which case the state is unchanged, and
  with no other error; the state it leaves satisfies the same two conditions.
\<close>

theorem fifo_reduce_returns:
  assumes "\<not> mergeOnly opt" and "1 \<le> backPressure opt"
    and "present_ok (cache s) (currKeys s)"
    and "\<forall>j. int (length (queue (cache s) j)) \<le> backPressure opt"
  shows "\<exists>s' r. partitionSync_reduce undef isReduced R opt ks s acc x = Some (s', r)
           \<and> present_ok (cache s') (currKeys s')
           \<and> (\<forall>j. int (length (queue (cache s') j)) \<le> backPressure opt)
           \<and> (r = Inl (IllegalState (backPressure opt) (key opt x)) \<and> s' = s
               \<or> (\<exists>acc'. r = Inr acc'))"
proof -
  from assms(1,2) have "partitionSync_reduce undef isReduced R opt ks s acc x =
      fifo_reduce undef isReduced R opt ks s acc x"
    by (simp add: partitionSync_reduce_def unbounded_def)
  with fifo_reduce_ok [OF assms(2,3,4), of undef isReduced R ks acc x] show ?thesis
    by simp
qed

text \<open>
  From the initial state with \<open>backPressure = 2\<close>, the call for \<open>(a, 1)\<close> returns.
\<close>

theorem fifo_reduce_returns_witness:
  "\<not> mergeOnly (doc_opts\<lparr>backPressure := 2\<rparr>)
   \<and> 1 \<le> backPressure (doc_opts\<lparr>backPressure := 2\<rparr>)
   \<and> present_ok (cache (init_state :: (string, string \<times> int) state))
        (currKeys (init_state :: (string, string \<times> int) state))
   \<and> (\<forall>j. int (length (queue (cache (init_state :: (string, string \<times> int) state)) j))
          \<le> backPressure (doc_opts\<lparr>backPressure := 2\<rparr>))
   \<and> (\<exists>s' r. partitionSync_reduce ('''', 0::int) not_reduced push
           (doc_opts\<lparr>backPressure := 2\<rparr>) [''a'', ''b''] init_state []
           (''a'', 1::int) = Some (s', r)
         \<and> present_ok (cache s') (currKeys s')
         \<and> (\<forall>j. int (length (queue (cache s') j))
                \<le> backPressure (doc_opts\<lparr>backPressure := 2\<rparr>))
         \<and> (r = Inl (IllegalState (backPressure (doc_opts\<lparr>backPressure := 2\<rparr>))
                      (key (doc_opts\<lparr>backPressure := 2\<rparr>) (''a'', 1::int)))
              \<and> s' = init_state
             \<or> (\<exists>acc'. r = Inr acc')))"
proof -
  have h1: "\<not> mergeOnly (doc_opts\<lparr>backPressure := 2\<rparr>)"
    and h2: "1 \<le> backPressure
               (doc_opts\<lparr>backPressure := 2\<rparr>)"
    by (simp_all add: doc_opts_def default_opts_def)
  have h3: "present_ok (cache (init_state :: (string, string \<times> int) state))
        (currKeys (init_state :: (string, string \<times> int) state))"
    by (rule init_state_ok(1))
  have h4: "\<forall>j. int (length (queue (cache (init_state :: (string, string \<times> int) state)) j))
          \<le> backPressure (doc_opts\<lparr>backPressure := 2\<rparr>)"
    by (simp add: init_state_def queue_def doc_opts_def default_opts_def)
  from fifo_reduce_returns [OF h1 h2 h3 h4, of "('''', 0::int)" not_reduced push
      "[''a'', ''b'']" "[]" "(''a'', 1::int)"] h3 h4
  show ?thesis by (simp add: doc_opts_def default_opts_def)
qed

text \<open>
  With back pressure on, every run from the initial state returns, with no error but
  the overflow error, and at its end no label has more than \<open>backPressure\<close> values
  cached.
\<close>

theorem back_pressure_run_within_limit:
  assumes "\<not> mergeOnly opt" and "1 \<le> backPressure opt"
  shows "\<exists>s' r. feed undef isReduced R opt ks xs init_state acc = Some (s', r)
           \<and> (\<forall>j. int (length (queue (cache s') j)) \<le> backPressure opt)
           \<and> ((\<exists>k. r = Inl (IllegalState (backPressure opt) k)) \<or> (\<exists>acc'. r = Inr acc'))"
proof -
  from assms(2) have "\<forall>j. int (length (queue (cache (init_state :: ('a, 'b) state)) j))
      \<le> backPressure opt"
    by (simp add: init_state_ok(2))
  from feed_ok [OF assms init_state_ok(1) this, of undef isReduced R ks xs acc]
  show ?thesis by blast
qed

text \<open>The run over \<open>(a, 1)\<close>, \<open>(a, 2)\<close>, \<open>(b, 10)\<close> with \<open>backPressure = 2\<close>.\<close>

theorem back_pressure_run_within_limit_witness:
  "\<not> mergeOnly (doc_opts\<lparr>backPressure := 2\<rparr>)
   \<and> 1 \<le> backPressure (doc_opts\<lparr>backPressure := 2\<rparr>)
   \<and> (\<exists>s' r. feed ('''', 0::int) not_reduced push
           (doc_opts\<lparr>backPressure := 2\<rparr>) [''a'', ''b'']
           [(''a'', 1::int), (''a'', 2::int), (''b'', 10::int)] init_state [] = Some (s', r)
         \<and> (\<forall>j. int (length (queue (cache s') j))
                \<le> backPressure (doc_opts\<lparr>backPressure := 2\<rparr>))
         \<and> ((\<exists>k. r = Inl (IllegalState (backPressure (doc_opts\<lparr>backPressure := 2\<rparr>)) k))
             \<or> (\<exists>acc'. r = Inr acc')))"
proof -
  have h1: "\<not> mergeOnly (doc_opts\<lparr>backPressure := 2\<rparr>)"
    and h2: "1 \<le> backPressure
               (doc_opts\<lparr>backPressure := 2\<rparr>)"
    by (simp_all add: doc_opts_def default_opts_def)
  from back_pressure_run_within_limit [OF h1 h2, of "('''', 0::int)" not_reduced push
      "[''a'', ''b'']" "[(''a'', 1::int), (''a'', 2::int), (''b'', 10::int)]" "[]"]
  show ?thesis by (simp add: doc_opts_def default_opts_def)
qed

end
